theory Spec2Isabelle
  imports Main "HOL-Library.Word" "HOL-Library.Monad_Syntax"
begin

unbundle bit_operations_syntax

section \<open>The arithmetic engine of crc32\_modifier.py\<close>

text \<open>
  Python integers are unbounded, so every value of the engine is an \<open>int\<close>; the shifts
  \<open>x << n\<close> and \<open>x >> n\<close> are \<open>push_bit n x\<close> and \<open>drop_bit n x\<close>, which agree
  with Python on negative numbers as well (arithmetic shift, two's complement
  \<open>AND\<close>, \<open>OR\<close>, \<open>XOR\<close>). A \<open>while\<close> loop whose termination depends on its input
  is a \<open>partial_function\<close> in the option monad: \<open>None\<close> is a run that never returns.
\<close>

datatype error =
    ValueError string
  | IOError string
  | AssertionError string

type_synonym byte = "8 word"

definition POLYNOMIAL :: int where
  "POLYNOMIAL = 0x104C11DB7"

definition MASK :: int where
  "MASK = push_bit 32 1 - 1"

text \<open>\<open>reverse32\<close>: the loop \<open>for _ in range(32)\<close> with its two variables.\<close>

primrec reverse32_loop :: "nat \<Rightarrow> int \<Rightarrow> int \<Rightarrow> int" where
  "reverse32_loop 0 x y = y"
| "reverse32_loop (Suc n) x y = reverse32_loop n (drop_bit 1 x) (push_bit 1 y OR (x AND 1))"

definition reverse32 :: "int \<Rightarrow> int" where
  "reverse32 x = reverse32_loop 32 x 0"

text \<open>
  \<open>multiply_mod\<close>: the loop \<open>while y != 0\<close> over the state \<open>(x, y, z)\<close>. For a negative
  \<open>y\<close> the shift \<open>y >>= 1\<close> never reaches 0 and the loop runs forever.
\<close>

partial_function (option) multiply_mod_loop :: "int \<Rightarrow> int \<Rightarrow> int \<Rightarrow> int option" where
  "multiply_mod_loop x y z =
     (if y = 0 then Some z
      else multiply_mod_loop
             (if drop_bit 32 (push_bit 1 x) AND 1 \<noteq> 0 then push_bit 1 x XOR POLYNOMIAL
              else push_bit 1 x)
             (drop_bit 1 y)
             (if y AND 1 \<noteq> 0 then z XOR x else z))"

definition multiply_mod :: "int \<Rightarrow> int \<Rightarrow> int option" where
  "multiply_mod x y = multiply_mod_loop x y 0"

text \<open>\<open>pow_mod\<close>: binary exponentiation over the state \<open>(x, y, z)\<close>.\<close>

partial_function (option) pow_mod_loop :: "int \<Rightarrow> int \<Rightarrow> int \<Rightarrow> int option" where
  "pow_mod_loop x y z =
     (if y = 0 then Some z
      else do {
        z' \<leftarrow> (if y AND 1 \<noteq> 0 then multiply_mod z x else Some z);
        x' \<leftarrow> multiply_mod x x;
        pow_mod_loop x' (drop_bit 1 y) z'
      })"

definition pow_mod :: "int \<Rightarrow> int \<Rightarrow> int option" where
  "pow_mod x y = pow_mod_loop x y 1"

text \<open>
  \<open>get_degree\<close> is \<open>x.bit_length() - 1\<close>; Python's \<open>bit_length\<close> is the number of bits
  of the absolute value, 0 for 0.
\<close>

fun bit_length_nat :: "nat \<Rightarrow> nat" where
  "bit_length_nat n = (if n = 0 then 0 else Suc (bit_length_nat (n div 2)))"

declare bit_length_nat.simps [simp del]

definition bit_length :: "int \<Rightarrow> int" where
  "bit_length x = int (bit_length_nat (nat \<bar>x\<bar>))"

definition get_degree :: "int \<Rightarrow> int" where
  "get_degree x = bit_length x - 1"

text \<open>
  \<open>divide_and_remainder\<close>: \<open>for i in range(get_degree(x) - ydeg, -1, -1)\<close> visits
  \<open>i = n - 1, ..., 0\<close> for \<open>n = get_degree(x) - ydeg + 1\<close> and nothing when \<open>n \<le> 0\<close>;
  the loop state is \<open>(z, x)\<close>.
\<close>

primrec divide_loop :: "int \<Rightarrow> nat \<Rightarrow> nat \<Rightarrow> int \<times> int \<Rightarrow> int \<times> int" where
  "divide_loop y ydeg 0 s = s"
| "divide_loop y ydeg (Suc i) s =
     divide_loop y ydeg i
       (if drop_bit (i + ydeg) (snd s) AND 1 \<noteq> 0
        then (fst s OR push_bit i 1, snd s XOR push_bit i y)
        else s)"

definition divide_and_remainder :: "int \<Rightarrow> int \<Rightarrow> error + int \<times> int" where
  "divide_and_remainder x y =
     (if y = 0 then Inl (ValueError ''Division by zero'')
      else if x = 0 then Inr (0, 0)
      else let ydeg = get_degree y
           in Inr (divide_loop y (nat ydeg) (nat (get_degree x - ydeg + 1)) (0, x)))"

text \<open>
  \<open>reciprocal_mod\<close>: the extended Euclidean loop over the state \<open>(x, y, a, b)\<close>, started at
  \<open>(POLYNOMIAL, x, 0, 1)\<close>.
\<close>

partial_function (option) reciprocal_mod_loop ::
  "int \<Rightarrow> int \<Rightarrow> int \<Rightarrow> int \<Rightarrow> (error + int) option" where
  "reciprocal_mod_loop x y a b =
     (if y = 0 then
        (if x = 1 then Some (Inr a) else Some (Inl (ValueError ''Reciprocal does not exist'')))
      else case divide_and_remainder x y of
             Inl e \<Rightarrow> Some (Inl e)
           | Inr qr \<Rightarrow>
               (case multiply_mod (fst qr) b of
                  None \<Rightarrow> None
                | Some m \<Rightarrow> reciprocal_mod_loop y (snd qr) b (a XOR m)))"

definition reciprocal_mod :: "int \<Rightarrow> (error + int) option" where
  "reciprocal_mod x = reciprocal_mod_loop POLYNOMIAL x 0 1"

section \<open>The digest of CRC32.py\<close>

text \<open>
  A Python \<open>str\<close> is a \<open>string\<close> whose characters are code points below 256 (the model
  leaves larger code points out); \<open>encode('utf-8')\<close> yields one byte for a code point below
  128 and two bytes otherwise.
\<close>

definition utf8_encode_char :: "char \<Rightarrow> byte list" where
  "utf8_encode_char c =
     (let n = of_char c :: nat
      in if n < 128 then [of_nat n] else [of_nat (192 + n div 64), of_nat (128 + n mod 64)])"

definition utf8_encode :: "string \<Rightarrow> byte list" where
  "utf8_encode data = concat (map utf8_encode_char data)"

text \<open>The body of \<open>for _ in range(8)\<close>, then the body of \<open>for byte in byte_data\<close>.\<close>

definition crc_bit_step :: "int \<Rightarrow> int" where
  "crc_bit_step crc = (if crc AND 1 \<noteq> 0 then drop_bit 1 crc XOR 0xEDB88320 else drop_bit 1 crc)"

definition crc_byte_step :: "int \<Rightarrow> byte \<Rightarrow> int" where
  "crc_byte_step crc b = (crc_bit_step ^^ 8) (crc XOR uint b)"

definition calculate_crc32_bytes :: "byte list \<Rightarrow> int" where
  "calculate_crc32_bytes byte_data = foldl crc_byte_step 0xFFFFFFFF byte_data XOR 0xFFFFFFFF"

definition calculate_crc32 :: "string \<Rightarrow> int" where
  "calculate_crc32 data = calculate_crc32_bytes (utf8_encode data)"

section \<open>CRC-32/ISO-HDLC as the specification words it\<close>

text \<open>
  The register is a 32-bit word: initial value \<open>0xFFFFFFFF\<close>, generator \<open>0xEDB88320\<close>, one
  byte per outer step, eight times "if the low bit is set, shift right and xor with the
  generator; else shift right", final xor \<open>0xFFFFFFFF\<close>.
\<close>

definition iso_hdlc_bit :: "32 word \<Rightarrow> 32 word" where
  "iso_hdlc_bit r = (if bit r 0 then drop_bit 1 r XOR 0xEDB88320 else drop_bit 1 r)"

definition iso_hdlc_byte :: "32 word \<Rightarrow> byte \<Rightarrow> 32 word" where
  "iso_hdlc_byte r b = (iso_hdlc_bit ^^ 8) (r XOR ucast b)"

definition iso_hdlc_update :: "32 word \<Rightarrow> byte list \<Rightarrow> 32 word" where
  "iso_hdlc_update r bs = foldl iso_hdlc_byte r bs"

definition crc32_iso_hdlc :: "byte list \<Rightarrow> 32 word" where
  "crc32_iso_hdlc bs = iso_hdlc_update 0xFFFFFFFF bs XOR 0xFFFFFFFF"

text \<open>
  Modelled from the spec: \<open>zlib.crc32(buffer, value)\<close> is the library primitive that
  \<open>get_crc32\<close> calls; its code is not part of the repository. It is the digest above fed
  incrementally: the running value (taken modulo \<open>2 ^ 32\<close>) is un-inverted, updated with
  the buffer and inverted again, and the result is an unsigned 32-bit integer.
\<close>

definition zlib_crc32 :: "byte list \<Rightarrow> int \<Rightarrow> int" where
  "zlib_crc32 buffer v =
     uint (iso_hdlc_update (word_of_int v XOR 0xFFFFFFFF) buffer XOR 0xFFFFFFFF)"

section \<open>The forger of crc32\_modifier.py\<close>

text \<open>
  The open file is the list of its bytes. \<open>raf.read(n)\<close> at position \<open>p\<close> returns
  \<open>take n (drop p file)\<close>. \<open>get_crc32\<close> seeks to 0 and folds \<open>zlib.crc32\<close> over chunks of
  \<open>128 * 1024\<close> bytes until a read returns nothing.
\<close>

function get_crc32_loop :: "byte list \<Rightarrow> int \<Rightarrow> int" where
  "get_crc32_loop rest crc =
     (if length (take (128 * 1024) rest) = 0 then reverse32 crc
      else get_crc32_loop (drop (128 * 1024) rest) (zlib_crc32 (take (128 * 1024) rest) crc))"
  by pat_completeness auto
termination
  by (relation "measure (\<lambda>(rest, crc). length rest)") auto

declare get_crc32_loop.simps [simp del]

definition get_crc32 :: "byte list \<Rightarrow> int" where
  "get_crc32 raf = get_crc32_loop raf 0"

text \<open>
  \<open>for i in range(4): bytes4[i] ^= (reverse32(delta) >> (i * 8)) & 0xFF\<close>, on a
  \<open>bytearray\<close> of length 4.
\<close>

definition patch_bytes :: "byte list \<Rightarrow> int \<Rightarrow> byte list" where
  "patch_bytes bytes4 delta =
     map (\<lambda>i. bytes4 ! i XOR word_of_int (drop_bit (i * 8) (reverse32 delta) AND 0xFF)) [0..<4]"

text \<open>\<open>raf.seek(offset); raf.write(bytes4)\<close> overwrites the bytes from \<open>offset\<close> on.\<close>

definition write_at :: "byte list \<Rightarrow> nat \<Rightarrow> byte list \<Rightarrow> byte list" where
  "write_at file offset bs = take offset file @ bs @ drop (offset + length bs) file"

text \<open>
  \<open>modify_file_crc32\<close> returns the content the file is left with, and \<open>Inl\<close> the exception
  raised or \<open>Inr ()\<close> for a normal return; \<open>None\<close> is a call that never returns. A negative
  \<open>offset\<close> passes the range check and fails in \<open>raf.seek(offset)\<close>, which raises
  \<open>OSError\<close> (the class \<open>IOError\<close> names) before anything is written. The status prints
  do not change the file and are left out.
\<close>

definition modify_file_crc32 ::
  "byte list \<Rightarrow> int \<Rightarrow> int \<Rightarrow> (byte list \<times> (error + unit)) option" where
  "modify_file_crc32 file offset newcrc =
     (if offset + 4 > int (length file) then
        Some (file, Inl (ValueError ''Byte offset plus 4 exceeds file length''))
      else
        case pow_mod 2 ((int (length file) - offset) * 8) of
          None \<Rightarrow> None
        | Some p \<Rightarrow>
            (case reciprocal_mod p of
               None \<Rightarrow> None
             | Some (Inl e) \<Rightarrow> Some (file, Inl e)
             | Some (Inr r) \<Rightarrow>
                 (case multiply_mod r (get_crc32 file XOR newcrc) of
                    None \<Rightarrow> None
                  | Some delta \<Rightarrow>
                      if offset < 0 then Some (file, Inl (IOError ''[Errno 22] Invalid argument''))
                      else if length (take 4 (drop (nat offset) file)) \<noteq> 4 then
                        Some (file, Inl (IOError ''Cannot read 4 bytes at offset''))
                      else
                        let file' = write_at file (nat offset)
                                      (patch_bytes (take 4 (drop (nat offset) file)) delta)
                        in if get_crc32 file' \<noteq> newcrc then
                             Some (file',
                               Inl (AssertionError ''Failed to update CRC-32 to desired value''))
                           else Some (file', Inr ()))))"

section \<open>The command line of crc32\_modifier.py\<close>

text \<open>
  Python's \<open>int(s, base)\<close> on a \<open>str\<close>, for base 10 and 16: surrounding whitespace is
  stripped, a sign may lead, base 16 admits the prefix \<open>0x\<close> or \<open>0X\<close> (and one underscore
  after it), and the digits may be separated by single underscores. \<open>None\<close> is
  \<open>ValueError\<close>.
\<close>

definition py_isspace :: "char \<Rightarrow> bool" where
  "py_isspace c = (of_char c \<in> {9, 10, 11, 12, 13, 28, 29, 30, 31, 32, 133, 160 :: nat})"

definition py_strip :: "string \<Rightarrow> string" where
  "py_strip s = rev (dropWhile py_isspace (rev (dropWhile py_isspace s)))"

definition digit_value :: "char \<Rightarrow> nat option" where
  "digit_value c =
     (let n = of_char c :: nat
      in if 48 \<le> n \<and> n \<le> 57 then Some (n - 48)
         else if 97 \<le> n \<and> n \<le> 122 then Some (n - 87)
         else if 65 \<le> n \<and> n \<le> 90 then Some (n - 55)
         else None)"

fun py_digits :: "nat \<Rightarrow> bool \<Rightarrow> string \<Rightarrow> nat \<Rightarrow> nat option" where
  "py_digits base after_digit [] acc = (if after_digit then Some acc else None)"
| "py_digits base after_digit (c # cs) acc =
     (if c = CHR ''_'' then (if after_digit then py_digits base False cs acc else None)
      else case digit_value c of
             None \<Rightarrow> None
           | Some v \<Rightarrow> if v < base then py_digits base True cs (acc * base + v) else None)"

definition py_int :: "nat \<Rightarrow> string \<Rightarrow> int option" where
  "py_int base s =
     (let t = py_strip s;
          neg = (take 1 t = ''-'');
          u = (if take 1 t = ''+'' \<or> take 1 t = ''-'' then drop 1 t else t);
          pre = (base = 16 \<and> (take 2 u = ''0x'' \<or> take 2 u = ''0X''));
          v = (if pre then drop 2 u else u);
          w = (if pre \<and> take 1 v = ''_'' then drop 1 v else v)
      in map_option (\<lambda>n. if neg then - int n else int n) (py_digits base False w 0))"

text \<open>Lines 29 to 38 of \<open>main\<close>: \<open>Inl\<close> the error message returned, \<open>Inr\<close> the value of \<open>new_crc\<close>.\<close>

definition parse_new_crc :: "string \<Rightarrow> string + int" where
  "parse_new_crc a =
     (if length a \<noteq> 8 \<or> take 1 a = ''+'' \<or> take 1 a = ''-'' then
        Inl ''Error: Invalid new CRC-32 value''
      else case py_int 16 a of
             None \<Rightarrow> Inl ''Error: Invalid new CRC-32 value''
           | Some temp \<Rightarrow>
               if temp AND MASK \<noteq> temp then Inl ''Error: Invalid new CRC-32 value''
               else Inr (reverse32 temp))"

text \<open>
  \<open>main\<close> over a file system (a map from paths to contents): the file system it leaves and
  the message it returns (\<open>None\<close> for success). Opening a path that is not there raises
  \<open>OSError\<close>.
\<close>

definition main ::
  "(string \<rightharpoonup> byte list) \<Rightarrow> string list \<Rightarrow> ((string \<rightharpoonup> byte list) \<times> string option) option" where
  "main fs args =
     (if length args \<noteq> 3 then
        Some (fs, Some ''Usage: python crc32_modifier.py <FileName> <ByteOffset> <NewCrc32Value>'')
      else case py_int 10 (args ! 1) of
        None \<Rightarrow> Some (fs, Some ''Error: Invalid byte offset'')
      | Some offset \<Rightarrow>
          if offset < 0 then Some (fs, Some ''Error: Negative byte offset'')
          else case parse_new_crc (args ! 2) of
            Inl msg \<Rightarrow> Some (fs, Some msg)
          | Inr new_crc \<Rightarrow>
              (case fs (args ! 0) of
                 None \<Rightarrow> Some (fs, Some ''I/O error: [Errno 2] No such file or directory'')
               | Some file \<Rightarrow>
                   (case modify_file_crc32 file offset new_crc of
                      None \<Rightarrow> None
                    | Some (file', res) \<Rightarrow>
                        Some (fs(args ! 0 \<mapsto> file'),
                          case res of
                            Inl (ValueError m) \<Rightarrow> Some (''Error: '' @ m)
                          | Inl (IOError m) \<Rightarrow> Some (''I/O error: '' @ m)
                          | Inl (AssertionError m) \<Rightarrow> Some (''Assertion error: '' @ m)
                          | Inr u \<Rightarrow> None))))"

fun clmul :: "nat \<Rightarrow> nat \<Rightarrow> nat" where
  "clmul a b = (if a = 0 then 0 else (if odd a then b else 0) XOR 2 * clmul (a div 2) b)"

declare clmul.simps [simp del]

lemma clmul_0 [simp]: "clmul 0 b = 0"
  by (simp add: clmul.simps)

lemma clmul_double: "clmul (2 * a) b = 2 * clmul a b"
  by (subst clmul.simps) simp

lemma clmul_double_Suc: "clmul (Suc (2 * a)) b = b XOR 2 * clmul a b"
  by (subst clmul.simps) simp

lemma double_xor_nat: "2 * (a XOR b) = 2 * a XOR 2 * (b::nat)"
  using push_bit_xor [of 1 a b] by (simp add: push_bit_eq_mult mult.commute)

lemma clmul_0_right [simp]: "clmul a 0 = 0"
  by (induction a "0::nat" rule: clmul.induct) (subst clmul.simps, simp)

lemma clmul_xor_right: "clmul a (b XOR c) = clmul a b XOR clmul a c"
proof (induction a b rule: clmul.induct)
  case (1 a b)
  show ?case
  proof (cases "a = 0")
    case True
    then show ?thesis by simp
  next
    case False
    with 1 have ih: "clmul (a div 2) (b XOR c) = clmul (a div 2) b XOR clmul (a div 2) c"
      by simp
    show ?thesis
      by (subst (1 2 3) clmul.simps) (simp add: ih False double_xor_nat ac_simps)
  qed
qed

lemma clmul_1 [simp]: "clmul (Suc 0) b = b"
  by (subst clmul.simps) simp

lemma parity_split_xor: "(a::nat) = (if odd a then 1 else 0) XOR 2 * (a div 2)"
  by (rule bit_eqI) (auto simp add: bit_simps bit_0 bit_rec [of a] split: nat.splits)


lemma clmul_1_right [simp]: "clmul a (Suc 0) = a"
proof (induction a "Suc 0" rule: clmul.induct)
  case (1 a)
  show ?case
  proof (cases "a = 0")
    case True
    then show ?thesis by simp
  next
    case False
    with 1 have ih: "clmul (a div 2) (Suc 0) = a div 2" by simp
    have "clmul a (Suc 0) = (if odd a then 1 else 0) XOR 2 * clmul (a div 2) (Suc 0)"
      by (subst clmul.simps) (simp add: False)
    also have "\<dots> = (if odd a then 1 else 0) XOR 2 * (a div 2)"
      unfolding ih ..
    also have "\<dots> = a"
      by (rule parity_split_xor [symmetric])
    finally show ?thesis .
  qed
qed

lemma clmul_double_right: "clmul a (2 * b) = 2 * clmul a b"
proof (induction a b rule: clmul.induct)
  case (1 a b)
  show ?case
  proof (cases "a = 0")
    case True
    then show ?thesis by simp
  next
    case False
    with 1 have "clmul (a div 2) (2 * b) = 2 * clmul (a div 2) b" by simp
    then show ?thesis
      by (subst (1 2) clmul.simps) (simp add: False double_xor_nat)
  qed
qed

lemma clmul_commute: "clmul a b = clmul b a"
proof (induction a b rule: clmul.induct)
  case (1 a b)
  show ?case
  proof (cases "a = 0")
    case True
    then show ?thesis by simp
  next
    case False
    with 1 have ih: "clmul (a div 2) b = clmul b (a div 2)" by simp
    have "clmul b a = clmul b ((if odd a then 1 else 0) XOR 2 * (a div 2))"
      using parity_split_xor [of a] by simp
    also have "\<dots> = (if odd a then b else 0) XOR 2 * clmul b (a div 2)"
      by (simp add: clmul_xor_right clmul_double_right)
    finally show ?thesis
      by (subst clmul.simps) (simp add: False ih)
  qed
qed

lemma clmul_xor_left: "clmul (a XOR b) c = clmul a c XOR clmul b c"
  by (simp add: clmul_commute [of _ c] clmul_xor_right)

lemma clmul_assoc: "clmul (clmul a b) c = clmul a (clmul b c)"
proof (induction a b rule: clmul.induct)
  case (1 a b)
  show ?case
  proof (cases "a = 0")
    case True
    then show ?thesis by simp
  next
    case False
    with 1 have ih: "clmul (clmul (a div 2) b) c = clmul (a div 2) (clmul b c)" by simp
    have "clmul (clmul a b) c = clmul ((if odd a then b else 0) XOR 2 * clmul (a div 2) b) c"
      by (subst clmul.simps) (simp add: False)
    also have "\<dots> = (if odd a then clmul b c else 0) XOR 2 * clmul (a div 2) (clmul b c)"
      by (simp add: clmul_xor_left clmul_double ih)
    also have "\<dots> = clmul a (clmul b c)"
      by (subst (3) clmul.simps) (simp add: False)
    finally show ?thesis .
  qed
qed

datatype gf2poly = GF2 (coeffs: nat)

instantiation gf2poly :: comm_ring_1
begin

definition zero_gf2poly :: gf2poly where "zero_gf2poly = GF2 0"
definition one_gf2poly :: gf2poly where "one_gf2poly = GF2 1"
definition plus_gf2poly :: "gf2poly \<Rightarrow> gf2poly \<Rightarrow> gf2poly" where
  "plus_gf2poly p q = GF2 (coeffs p XOR coeffs q)"
definition minus_gf2poly :: "gf2poly \<Rightarrow> gf2poly \<Rightarrow> gf2poly" where
  "minus_gf2poly p q = GF2 (coeffs p XOR coeffs q)"
definition uminus_gf2poly :: "gf2poly \<Rightarrow> gf2poly" where
  "uminus_gf2poly p = p"
definition times_gf2poly :: "gf2poly \<Rightarrow> gf2poly \<Rightarrow> gf2poly" where
  "times_gf2poly p q = GF2 (clmul (coeffs p) (coeffs q))"

instance
proof
  fix a b c :: gf2poly
  show "a * b * c = a * (b * c)"
    by (simp add: times_gf2poly_def clmul_assoc)
  show "a * b = b * a"
    by (simp add: times_gf2poly_def clmul_commute)
  show "1 * a = a"
    by (simp add: times_gf2poly_def one_gf2poly_def)
  show "a + b + c = a + (b + c)"
    by (simp add: plus_gf2poly_def ac_simps)
  show "a + b = b + a"
    by (simp add: plus_gf2poly_def ac_simps)
  show "0 + a = a"
    by (simp add: plus_gf2poly_def zero_gf2poly_def)
  show "- a + a = 0"
    by (simp add: plus_gf2poly_def zero_gf2poly_def uminus_gf2poly_def)
  show "a - b = a + - b"
    by (simp add: plus_gf2poly_def minus_gf2poly_def uminus_gf2poly_def)
  show "(a + b) * c = a * c + b * c"
    by (simp add: plus_gf2poly_def times_gf2poly_def clmul_xor_left)
  show "(0::gf2poly) \<noteq> 1"
    by (simp add: zero_gf2poly_def one_gf2poly_def)
qed

end

lemma xor_less_pow2: "a < 2 ^ n \<Longrightarrow> b < 2 ^ n \<Longrightarrow> a XOR b < (2::nat) ^ n"
  unfolding take_bit_nat_eq_self_iff [symmetric] by simp

lemma bit_imp_ge_pow2: "bit (a::nat) n \<Longrightarrow> 2 ^ n \<le> a"
  by (rule ccontr) (simp add: bit_nat_def not_le)

lemma less_pow2_imp_not_bit: "a < 2 ^ n \<Longrightarrow> n \<le> i \<Longrightarrow> \<not> bit (a::nat) i"
proof
  assume "a < 2 ^ n" "n \<le> i" "bit a i"
  then have "(2::nat) ^ n \<le> 2 ^ i" "2 ^ i \<le> a"
    by (simp_all add: bit_imp_ge_pow2)
  with \<open>a < 2 ^ n\<close> show False by simp
qed

lemma not_bit_imp_less_pow2:
  assumes "\<And>j. n \<le> j \<Longrightarrow> \<not> bit (a::nat) j"
  shows "a < 2 ^ n"
proof -
  have "take_bit n a = a"
  proof (rule bit_eqI)
    fix j
    show "bit (take_bit n a) j = bit a j"
      using assms [of j] by (cases "j < n") (simp_all add: bit_take_bit_iff)
  qed
  then show ?thesis
    by (simp add: take_bit_nat_eq_self_iff)
qed

lemma xor_le_add_nat: "x XOR y \<le> x + (y::nat)"
proof (induction x arbitrary: y rule: less_induct)
  case (less x)
  show ?case
  proof (cases "x = 0")
    case True
    then show ?thesis by simp
  next
    case False
    then have "x div 2 < x" by simp
    then have "x div 2 XOR y div 2 \<le> x div 2 + y div 2"
      by (rule less.IH)
    moreover have "x XOR y = (x mod 2 + y mod 2) mod 2 + 2 * (x div 2 XOR y div 2)"
      by (subst xor_nat_unfold) (simp add: False)
    moreover have "(x mod 2 + y mod 2) mod 2 \<le> x mod 2 + y mod 2"
      by simp
    moreover have "x = 2 * (x div 2) + x mod 2" "y = 2 * (y div 2) + y mod 2"
      by simp_all
    ultimately show ?thesis
      by linarith
  qed
qed


lemma clmul_ge: "k \<noteq> 0 \<Longrightarrow> b \<le> clmul k b"
proof (induction k b rule: clmul.induct)
  case (1 k b)
  show ?case
  proof (cases "k div 2 = 0")
    case True
    with 1 have "k = Suc 0" by (cases k) auto
    then show ?thesis by simp
  next
    case False
    with 1 have ih: "b \<le> clmul (k div 2) b" by simp
    have eq: "clmul k b = (if odd k then b else 0) XOR 2 * clmul (k div 2) b"
      by (subst clmul.simps) (simp add: 1)
    show ?thesis
    proof (cases "odd k")
      case True
      have "2 * clmul (k div 2) b = (b XOR 2 * clmul (k div 2) b) XOR b"
        by (simp add: ac_simps flip: xor.assoc)
      also have "\<dots> \<le> (b XOR 2 * clmul (k div 2) b) + b"
        by (rule xor_le_add_nat)
      finally show ?thesis
        using ih by (simp add: eq True)
    next
      case False
      then show ?thesis
        using ih by (simp add: eq)
    qed
  qed
qed

section \<open>mirror\<close>

definition PN :: nat where
  "PN = 0x104C11DB7"

definition mulx :: "nat \<Rightarrow> nat" where
  "mulx x = (if bit x 31 then 2 * x XOR PN else 2 * x)"

function mm_loop :: "nat \<Rightarrow> nat \<Rightarrow> nat \<Rightarrow> nat" where
  "mm_loop x y z =
     (if y = 0 then z else mm_loop (mulx x) (y div 2) (if odd y then z XOR x else z))"
  by pat_completeness auto
termination
  by (relation "measure (\<lambda>(x, y, z). y)") auto

declare mm_loop.simps [simp del]

definition mm :: "nat \<Rightarrow> nat \<Rightarrow> nat" where
  "mm x y = mm_loop x y 0"

function pw_loop :: "nat \<Rightarrow> nat \<Rightarrow> nat \<Rightarrow> nat" where
  "pw_loop x y z =
     (if y = 0 then z else pw_loop (mm x x) (y div 2) (if odd y then mm z x else z))"
  by pat_completeness auto
termination
  by (relation "measure (\<lambda>(x, y, z). y)") auto

declare pw_loop.simps [simp del]

definition pw :: "nat \<Rightarrow> nat \<Rightarrow> nat" where
  "pw x y = pw_loop x y 1"

primrec dv_loop :: "nat \<Rightarrow> nat \<Rightarrow> nat \<Rightarrow> nat \<times> nat \<Rightarrow> nat \<times> nat" where
  "dv_loop y d 0 s = s"
| "dv_loop y d (Suc i) s =
     dv_loop y d i
       (if bit (snd s) (i + d) then (fst s OR 2 ^ i, snd s XOR 2 ^ i * y) else s)"

definition dv :: "nat \<Rightarrow> nat \<Rightarrow> nat \<times> nat" where
  "dv x y =
     (if x = 0 then (0, 0)
      else dv_loop y (bit_length_nat y - 1) (Suc (bit_length_nat x) - bit_length_nat y) (0, x))"

lemma test_bit_int: "(drop_bit n (k::int) AND 1 \<noteq> 0) = bit k n"
  by (simp add: bit_iff_odd_drop_bit and_one_eq mod_2_eq_odd)

lemma test_bit_nat: "(drop_bit n (k::nat) AND 1 \<noteq> 0) = bit k n"
  by (simp add: bit_iff_odd_drop_bit and_one_eq mod_2_eq_odd)

lemma test_low_bit_int: "(int y AND 1 \<noteq> 0) = odd y"
  by (simp add: and_one_eq mod_2_eq_odd)

lemma drop_bit_1_int: "drop_bit 1 (int y) = int (y div 2)"
  by (simp add: drop_bit_eq_div)

lemma push_bit_1_int: "push_bit 1 (int x) = int (2 * x)"
  by (simp add: push_bit_eq_mult)

lemma POLYNOMIAL_int: "POLYNOMIAL = int PN"
  by (simp add: POLYNOMIAL_def PN_def)

lemma mulx_refines:
  "(if drop_bit 32 (push_bit 1 (int x)) AND 1 \<noteq> 0 then push_bit 1 (int x) XOR POLYNOMIAL
    else push_bit 1 (int x)) = int (mulx x)"
proof -
  have "bit (push_bit 1 (int x)) 32 = bit x 31"
    unfolding bit_push_bit_iff by (simp add: bit_of_nat_iff_bit)
  then show ?thesis
    unfolding test_bit_int push_bit_1_int POLYNOMIAL_int mulx_def
    by (simp add: of_nat_xor_eq)
qed

lemma multiply_mod_loop_refines:
  "multiply_mod_loop (int x) (int y) (int z) = Some (int (mm_loop x y z))"
proof (induction x y z rule: mm_loop.induct)
  case (1 x y z)
  show ?case
  proof (cases "y = 0")
    case True
    then show ?thesis
      by (subst multiply_mod_loop.simps, subst mm_loop.simps) simp
  next
    case False
    have "multiply_mod_loop (int x) (int y) (int z) =
      multiply_mod_loop (int (mulx x)) (int (y div 2)) (int (if odd y then z XOR x else z))"
      by (subst multiply_mod_loop.simps, simp only: mulx_refines drop_bit_1_int test_low_bit_int)
        (simp add: False of_nat_xor_eq)
    also have "\<dots> = Some (int (mm_loop (mulx x) (y div 2) (if odd y then z XOR x else z)))"
      using 1 [OF False] .
    also have "\<dots> = Some (int (mm_loop x y z))"
      by (subst (2) mm_loop.simps) (simp add: False)
    finally show ?thesis .
  qed
qed

lemma multiply_mod_refines: "multiply_mod (int x) (int y) = Some (int (mm x y))"
  using multiply_mod_loop_refines [of x y 0] by (simp add: multiply_mod_def mm_def)

lemma pow_mod_loop_refines:
  "pow_mod_loop (int x) (int y) (int z) = Some (int (pw_loop x y z))"
proof (induction x y z rule: pw_loop.induct)
  case (1 x y z)
  show ?case
  proof (cases "y = 0")
    case True
    then show ?thesis
      by (subst pow_mod_loop.simps, subst pw_loop.simps) simp
  next
    case False
    have "pow_mod_loop (int x) (int y) (int z) =
      pow_mod_loop (int (mm x x)) (int (y div 2)) (int (if odd y then mm z x else z))"
      by (subst pow_mod_loop.simps,
          simp only: multiply_mod_refines drop_bit_1_int test_low_bit_int)
        (simp add: False)
    also have "\<dots> = Some (int (pw_loop (mm x x) (y div 2) (if odd y then mm z x else z)))"
      using 1 [OF False] .
    also have "\<dots> = Some (int (pw_loop x y z))"
      by (subst (2) pw_loop.simps) (simp add: False)
    finally show ?thesis .
  qed
qed

lemma pow_mod_refines: "pow_mod (int x) (int y) = Some (int (pw x y))"
  using pow_mod_loop_refines [of x y 1] by (simp add: pow_mod_def pw_def)

lemma divide_loop_refines:
  "divide_loop (int y) d i (int z, int x) = map_prod int int (dv_loop y d i (z, x))"
proof (induction i arbitrary: z x)
  case 0
  show ?case by simp
next
  case (Suc i)
  have one: "push_bit i (1::int) = int (2 ^ i)"
    by simp
  have two: "push_bit i (int y) = int (2 ^ i * y)"
    by (simp add: push_bit_eq_mult)
  have "divide_loop (int y) d (Suc i) (int z, int x) =
    divide_loop (int y) d i (if bit x (i + d) then (int (z OR 2 ^ i), int (x XOR 2 ^ i * y)) else (int z, int x))"
    unfolding divide_loop.simps test_bit_int fst_conv snd_conv one two
      bit_of_nat_iff_bit of_nat_or_eq of_nat_xor_eq ..
  also have "\<dots> = map_prod int int (dv_loop y d (Suc i) (z, x))"
    by (simp add: Suc)
  finally show ?case .
qed

lemma get_degree_int: "get_degree (int x) = int (bit_length_nat x) - 1"
  by (simp add: get_degree_def bit_length_def)

lemma bit_length_nat_pos: "x \<noteq> 0 \<Longrightarrow> 0 < bit_length_nat x"
  by (subst bit_length_nat.simps) simp

lemma divide_and_remainder_refines:
  assumes y: "y \<noteq> 0"
  shows "divide_and_remainder (int x) (int y) = Inr (map_prod int int (dv x y))"
proof (cases "x = 0")
  case True
  then show ?thesis
    by (simp add: divide_and_remainder_def dv_def y)
next
  case False
  have a: "nat (get_degree (int y)) = bit_length_nat y - 1"
    by (simp add: get_degree_int)
  have b: "nat (get_degree (int x) - get_degree (int y) + 1) = Suc (bit_length_nat x) - bit_length_nat y"
    using bit_length_nat_pos [OF False] bit_length_nat_pos [OF y]
    unfolding get_degree_int by linarith
  have "divide_and_remainder (int x) (int y) =
    Inr (divide_loop (int y) (bit_length_nat y - 1) (Suc (bit_length_nat x) - bit_length_nat y) (int 0, int x))"
    unfolding divide_and_remainder_def Let_def a b using False y by simp
  then show ?thesis
    unfolding divide_loop_refines by (simp add: dv_def False)
qed

section \<open>bit length\<close>

lemma bit_length_nat_less: "x < 2 ^ bit_length_nat x"
proof (induction x rule: bit_length_nat.induct)
  case (1 n)
  show ?case
  proof (cases "n = 0")
    case True
    then show ?thesis by simp
  next
    case False
    with 1 have "n div 2 < 2 ^ bit_length_nat (n div 2)" by simp
    then have "n < 2 * 2 ^ bit_length_nat (n div 2)" by linarith
    then show ?thesis
      by (subst bit_length_nat.simps) (simp add: False)
  qed
qed

lemma bit_length_nat_bit: "x \<noteq> 0 \<Longrightarrow> bit x (bit_length_nat x - 1)"
proof (induction x rule: bit_length_nat.induct)
  case (1 n)
  show ?case
  proof (cases "n div 2 = 0")
    case True
    with 1 have "n = Suc 0" by (cases n) auto
    then show ?thesis
      by (subst bit_length_nat.simps, subst bit_length_nat.simps) (simp add: bit_0)
  next
    case False
    with 1 have ih: "bit (n div 2) (bit_length_nat (n div 2) - 1)" by simp
    from False have pos: "0 < bit_length_nat (n div 2)"
      by (simp add: bit_length_nat_pos)
    have "bit_length_nat n - 1 = Suc (bit_length_nat (n div 2) - 1)"
      using pos 1 by (subst bit_length_nat.simps) simp
    then show ?thesis
      using ih by (simp add: bit_Suc)
  qed
qed

lemma not_bit_less_Suc: "\<not> bit x n \<Longrightarrow> x < 2 ^ Suc n \<Longrightarrow> (x::nat) < 2 ^ n"
proof (rule not_bit_imp_less_pow2)
  fix j
  assume "\<not> bit x n" "x < 2 ^ Suc n" "n \<le> j"
  then show "\<not> bit x j"
    using less_pow2_imp_not_bit [of x "Suc n" j] by (cases "j = n") auto
qed

section \<open>congruence modulo the generator\<close>

definition Gp :: gf2poly where
  "Gp = GF2 PN"

definition Xp :: gf2poly where
  "Xp = GF2 2"

definition eqG :: "gf2poly \<Rightarrow> gf2poly \<Rightarrow> bool" where
  "eqG a b = (Gp dvd a + b)"

lemma gf2_add_self [simp]: "(a::gf2poly) + a = 0"
  by (simp add: plus_gf2poly_def zero_gf2poly_def)

lemma gf2_add_cancel [simp]: "(a::gf2poly) + (a + b) = b"
  by (simp flip: add.assoc)

lemma GF2_xor: "GF2 (a XOR b) = GF2 a + GF2 b"
  by (simp add: plus_gf2poly_def)

lemma GF2_0: "GF2 0 = 0"
  by (simp add: zero_gf2poly_def)

lemma GF2_1: "GF2 (Suc 0) = 1"
  by (simp add: one_gf2poly_def)

lemma GF2_clmul: "GF2 (clmul a b) = GF2 a * GF2 b"
  by (simp add: times_gf2poly_def)

lemma clmul_2: "clmul 2 x = 2 * x"
  using clmul_double [of 1 x] by simp

lemma GF2_double: "GF2 (2 * x) = Xp * GF2 x"
  by (simp add: Xp_def times_gf2poly_def clmul_2)

lemma GF2_split: "GF2 y = (if odd y then 1 else 0) + Xp * GF2 (y div 2)"
proof -
  have "GF2 y = GF2 ((if odd y then 1 else 0) XOR 2 * (y div 2))"
    using parity_split_xor [of y] by simp
  then show ?thesis
    by (simp add: GF2_xor GF2_double GF2_0 GF2_1)
qed

lemma eqG_refl [simp]: "eqG a a"
  by (simp add: eqG_def)

lemma eqG_sym: "eqG a b \<Longrightarrow> eqG b a"
  by (simp add: eqG_def add.commute)

lemma eqG_trans: "eqG a b \<Longrightarrow> eqG b c \<Longrightarrow> eqG a c"
proof -
  assume "eqG a b" "eqG b c"
  then have "Gp dvd (a + b) + (b + c)"
    unfolding eqG_def by (rule dvd_add)
  moreover have "(a + b) + (b + c) = a + c"
    by (simp add: add.assoc)
  ultimately show ?thesis
    by (simp add: eqG_def)
qed

lemma eqG_add: "eqG a b \<Longrightarrow> eqG c d \<Longrightarrow> eqG (a + c) (b + d)"
proof -
  assume "eqG a b" "eqG c d"
  then have "Gp dvd (a + b) + (c + d)"
    unfolding eqG_def by (rule dvd_add)
  moreover have "(a + b) + (c + d) = (a + c) + (b + d)"
    by (simp add: ac_simps)
  ultimately show ?thesis
    by (simp add: eqG_def)
qed

lemma eqG_mult: "eqG a b \<Longrightarrow> eqG c d \<Longrightarrow> eqG (a * c) (b * d)"
proof -
  assume "eqG a b" "eqG c d"
  then have "Gp dvd (a + b) * c + b * (c + d)"
    unfolding eqG_def by (simp add: dvd_add)
  moreover have "(a + b) * c + b * (c + d) = a * c + b * d"
    by (simp add: algebra_simps)
  ultimately show ?thesis
    by (simp add: eqG_def)
qed

lemma eqG_power: "eqG a b \<Longrightarrow> eqG (a ^ n) (b ^ n)"
  by (induction n) (simp_all add: eqG_mult)

lemma eqG_Gp: "eqG (a + Gp) a"
  by (simp add: eqG_def add.commute [of a] add.assoc)

lemma PN_bounds: "2 ^ 32 \<le> PN" "PN < 2 ^ 33"
  by (simp_all add: PN_def)

lemma eqG_unique:
  assumes "a < 2 ^ 32" "b < 2 ^ 32" "eqG (GF2 a) (GF2 b)"
  shows "a = b"
proof -
  from assms(3) obtain k where k: "GF2 a + GF2 b = Gp * k"
    unfolding eqG_def dvd_def by blast
  then have eq: "a XOR b = clmul (coeffs k) PN"
    by (simp add: plus_gf2poly_def times_gf2poly_def Gp_def clmul_commute)
  have "a XOR b < 2 ^ 32"
    using assms(1,2) by (rule xor_less_pow2)
  with eq PN_bounds(1) clmul_ge [of "coeffs k" PN] have "coeffs k = 0"
    by (cases "coeffs k = 0") auto
  with eq have "a XOR b = 0" by simp
  then have "(a XOR b) XOR b = b" by simp
  then show ?thesis by (simp add: xor.assoc)
qed

section \<open>mulx, mm\<close>

lemma mulx_less: "x < 2 ^ 32 \<Longrightarrow> mulx x < 2 ^ 32"
proof (cases "bit x 31")
  case True
  assume x: "x < 2 ^ 32"
  have "2 * x XOR PN < 2 ^ 32"
  proof (rule not_bit_imp_less_pow2)
    fix j :: nat
    assume j: "32 \<le> j"
    show "\<not> bit (2 * x XOR PN) j"
    proof (cases "j = 32")
      case True
      have "bit PN 32" by (simp add: PN_def bit_0)
      then show ?thesis
        using \<open>bit x 31\<close> by (simp add: True bit_xor_iff bit_double_iff)
    next
      case False
      with j have "33 \<le> j" by simp
      then have "\<not> bit PN j"
        using PN_bounds(2) by (rule less_pow2_imp_not_bit [rotated])
      moreover have "\<not> bit x (j - 1)"
        using x \<open>33 \<le> j\<close> by (intro less_pow2_imp_not_bit [of x 32]) auto
      ultimately show ?thesis
        by (simp add: bit_xor_iff bit_double_iff)
    qed
  qed
  with True show ?thesis by (simp add: mulx_def)
next
  case False
  assume "x < 2 ^ 32"
  with False have "x < 2 ^ 31"
    using not_bit_less_Suc [of x 31] by simp
  with False show ?thesis by (simp add: mulx_def)
qed

lemma mulx_eqG: "eqG (GF2 (mulx x)) (Xp * GF2 x)"
  using eqG_Gp [of "Xp * GF2 x"] by (simp add: mulx_def GF2_xor GF2_double Gp_def)

lemma mm_loop_eqG: "eqG (GF2 (mm_loop x y z)) (GF2 z + GF2 x * GF2 y)"
proof (induction x y z rule: mm_loop.induct)
  case (1 x y z)
  show ?case
  proof (cases "y = 0")
    case True
    then show ?thesis
      by (subst mm_loop.simps) (simp add: GF2_0)
  next
    case False
    let ?z = "if odd y then z XOR x else z"
    have "eqG (GF2 (mm_loop (mulx x) (y div 2) ?z)) (GF2 ?z + GF2 (mulx x) * GF2 (y div 2))"
      using 1 [OF False] .
    moreover have "eqG (GF2 ?z + GF2 (mulx x) * GF2 (y div 2))
        (GF2 ?z + (Xp * GF2 x) * GF2 (y div 2))"
      by (intro eqG_add eqG_mult mulx_eqG eqG_refl)
    moreover have "GF2 ?z + (Xp * GF2 x) * GF2 (y div 2) = GF2 z + GF2 x * GF2 y"
      by (subst GF2_split [of y]) (simp add: GF2_xor algebra_simps)
    moreover have "mm_loop x y z = mm_loop (mulx x) (y div 2) ?z"
      by (subst mm_loop.simps) (simp add: False)
    ultimately show ?thesis
      using eqG_trans by metis
  qed
qed

lemma mm_eqG: "eqG (GF2 (mm x y)) (GF2 x * GF2 y)"
  using mm_loop_eqG [of x y 0] by (simp add: mm_def GF2_0)

lemma mm_loop_less: "x < 2 ^ 32 \<Longrightarrow> z < 2 ^ 32 \<Longrightarrow> mm_loop x y z < 2 ^ 32"
proof (induction x y z rule: mm_loop.induct)
  case (1 x y z)
  show ?case
  proof (cases "y = 0")
    case True
    with 1 show ?thesis
      by (subst mm_loop.simps) simp
  next
    case False
    have "z XOR x < 2 ^ 32"
      using 1(2,3) by (intro xor_less_pow2)
    with 1(3) have "(if odd y then z XOR x else z) < 2 ^ 32"
      by (simp del: power_numeral)
    then have "mm_loop (mulx x) (y div 2) (if odd y then z XOR x else z) < 2 ^ 32"
      using 1(2) by (intro 1(1) [OF False] mulx_less)
    then show ?thesis
      by (subst mm_loop.simps) (simp add: False)
  qed
qed

lemma mm_less: "x < 2 ^ 32 \<Longrightarrow> mm x y < 2 ^ 32"
  using mm_loop_less [of x 0 y] by (simp add: mm_def)

lemma mm_loop_exact:
  "y < 2 ^ Suc d \<Longrightarrow> x * 2 ^ d < 2 ^ 32 \<Longrightarrow> mm_loop x y z = z XOR clmul y x"
proof (induction d arbitrary: x y z)
  case 0
  then have "y = 0 \<or> y = 1" by auto
  then show ?case
    by (subst mm_loop.simps, subst mm_loop.simps) auto
next
  case (Suc d)
  show ?case
  proof (cases "y = 0")
    case True
    then show ?thesis
      by (subst mm_loop.simps) simp
  next
    case False
    have "x \<le> x * 2 ^ d"
      by simp
    moreover from Suc.prems(2) have "x * 2 ^ d < 2 ^ 31"
      by simp
    ultimately have "x < 2 ^ 31"
      by (rule le_less_trans)
    then have "\<not> bit x 31"
      using less_pow2_imp_not_bit [of x 31 31] by simp
    then have mx: "mulx x = 2 * x"
      by (simp add: mulx_def)
    let ?z = "if odd y then z XOR x else z"
    have "mm_loop (2 * x) (y div 2) ?z = ?z XOR clmul (y div 2) (2 * x)"
      using Suc.prems by (intro Suc.IH) (auto simp add: ac_simps)
    then have "mm_loop x y z = ?z XOR 2 * clmul (y div 2) x"
      by (subst mm_loop.simps) (simp add: False mx clmul_double_right)
    also have "\<dots> = z XOR clmul y x"
      by (subst (2) clmul.simps) (simp add: False ac_simps)
    finally show ?thesis .
  qed
qed

section \<open>pw\<close>

lemma pw_loop_eqG: "eqG (GF2 (pw_loop x y z)) (GF2 z * GF2 x ^ y)"
proof (induction x y z rule: pw_loop.induct)
  case (1 x y z)
  show ?case
  proof (cases "y = 0")
    case True
    then show ?thesis
      by (subst pw_loop.simps) simp
  next
    case False
    let ?z = "if odd y then mm z x else z"
    have "eqG (GF2 (pw_loop (mm x x) (y div 2) ?z)) (GF2 ?z * GF2 (mm x x) ^ (y div 2))"
      using 1 [OF False] .
    moreover have "eqG (GF2 ?z * GF2 (mm x x) ^ (y div 2))
        ((if odd y then GF2 z * GF2 x else GF2 z) * (GF2 x * GF2 x) ^ (y div 2))"
      by (intro eqG_mult eqG_power) (auto intro: mm_eqG)
    moreover have "(if odd y then GF2 z * GF2 x else GF2 z) * (GF2 x * GF2 x) ^ (y div 2)
        = GF2 z * GF2 x ^ y"
    proof -
      have "GF2 x ^ y = GF2 x ^ (2 * (y div 2) + (if odd y then 1 else 0))"
        by simp
      also have "\<dots> = (GF2 x * GF2 x) ^ (y div 2) * (if odd y then GF2 x else 1)"
        by (simp add: power_add power_mult power2_eq_square del: odd_two_times_div_two_succ)
      finally show ?thesis by (simp add: ac_simps)
    qed
    moreover have "pw_loop x y z = pw_loop (mm x x) (y div 2) ?z"
      by (subst pw_loop.simps) (simp add: False)
    ultimately show ?thesis
      using eqG_trans by metis
  qed
qed

lemma pw_loop_less: "x < 2 ^ 32 \<Longrightarrow> z < 2 ^ 32 \<Longrightarrow> pw_loop x y z < 2 ^ 32"
proof (induction x y z rule: pw_loop.induct)
  case (1 x y z)
  show ?case
  proof (cases "y = 0")
    case True
    with 1 show ?thesis
      by (subst pw_loop.simps) simp
  next
    case False
    have "(if odd y then mm z x else z) < 2 ^ 32"
      using 1(3) mm_less [of z x] by simp
    then have "pw_loop (mm x x) (y div 2) (if odd y then mm z x else z) < 2 ^ 32"
      using 1(2) by (intro 1(1) [OF False] mm_less)
    then show ?thesis
      by (subst pw_loop.simps) (simp add: False)
  qed
qed

lemma pw_eqG: "eqG (GF2 (pw x y)) (GF2 x ^ y)"
  using pw_loop_eqG [of x y 1] by (simp add: pw_def GF2_1)

lemma pw_less: "x < 2 ^ 32 \<Longrightarrow> pw x y < 2 ^ 32"
  using pw_loop_less [of x 1 y] by (simp add: pw_def)

lemma xor_cancel_left: "(a::nat) XOR (a XOR b) = b"
  by (simp flip: xor.assoc)

lemma or_less_pow2: "a < 2 ^ n \<Longrightarrow> b < 2 ^ n \<Longrightarrow> a OR b < (2::nat) ^ n"
  unfolding take_bit_nat_eq_self_iff [symmetric] by simp

lemma bit_pow2_mult: "bit (2 ^ i * y :: nat) j = (i \<le> j \<and> bit y (j - i))"
  using bit_push_bit_iff [of i y j] by (simp add: push_bit_eq_mult mult.commute)

lemma clmul_pow2: "clmul (2 ^ i) y = 2 ^ i * y"
  by (induction i) (simp_all add: clmul_double)

lemma bit_length_nat_le: "x < 2 ^ n \<Longrightarrow> bit_length_nat x \<le> n"
proof (cases "x = 0")
  case True
  then show ?thesis by (subst bit_length_nat.simps) simp
next
  case False
  assume "x < 2 ^ n"
  have "2 ^ (bit_length_nat x - 1) \<le> x"
    using False by (intro bit_imp_ge_pow2 bit_length_nat_bit)
  then have "(2::nat) ^ (bit_length_nat x - 1) < 2 ^ n"
    using \<open>x < 2 ^ n\<close> by (rule le_less_trans)
  then have "bit_length_nat x - 1 < n"
    by (rule power_less_imp_less_exp [rotated]) simp
  then show ?thesis by simp
qed

lemma or_pow2_eq_xor: "\<not> bit z i \<Longrightarrow> z OR 2 ^ i = z XOR (2::nat) ^ i"
  by (rule bit_eqI) (auto simp add: bit_or_iff bit_xor_iff bit_exp_iff)

lemma dv_loop_correct:
  assumes y: "bit y d" "y < 2 ^ Suc d"
  shows "x < 2 ^ (i + d) \<Longrightarrow> \<forall>j<i. \<not> bit z j \<Longrightarrow> z < 2 ^ n \<Longrightarrow> i \<le> n \<Longrightarrow>
    clmul (fst (dv_loop y d i (z, x))) y XOR snd (dv_loop y d i (z, x)) = clmul z y XOR x
    \<and> snd (dv_loop y d i (z, x)) < 2 ^ d \<and> fst (dv_loop y d i (z, x)) < 2 ^ n"
proof (induction i arbitrary: z x)
  case 0
  then show ?case by simp
next
  case (Suc i)
  show ?case
  proof (cases "bit x (i + d)")
    case True
    let ?z = "z OR 2 ^ i" and ?x = "x XOR 2 ^ i * y"
    have zi: "\<not> bit z i"
      using Suc.prems(2) by simp
    have zeq: "?z = z XOR 2 ^ i"
      using zi by (rule or_pow2_eq_xor)
    have x': "?x < 2 ^ (i + d)"
    proof (rule not_bit_imp_less_pow2)
      fix j
      assume j: "i + d \<le> j"
      show "\<not> bit ?x j"
      proof (cases "j = i + d")
        case True
        then show ?thesis
          using \<open>bit x (i + d)\<close> y(1) by (simp add: bit_xor_iff bit_pow2_mult)
      next
        case False
        with j have "Suc i + d \<le> j" "Suc d \<le> j - i" by simp_all
        have "\<not> bit x j"
          using Suc.prems(1) \<open>Suc i + d \<le> j\<close> by (rule less_pow2_imp_not_bit)
        moreover have "\<not> bit y (j - i)"
          using y(2) \<open>Suc d \<le> j - i\<close> by (rule less_pow2_imp_not_bit)
        ultimately show ?thesis
          by (simp add: bit_xor_iff bit_pow2_mult)
      qed
    qed
    have z': "\<forall>j<i. \<not> bit ?z j"
      using Suc.prems(2) by (simp add: bit_or_iff bit_exp_iff)
    have "(2::nat) ^ i < 2 ^ n"
      using Suc.prems(4) by simp
    with Suc.prems(3) have zn: "?z < 2 ^ n"
      by (rule or_less_pow2)
    have eq: "clmul ?z y XOR ?x = clmul z y XOR x"
      unfolding zeq by (simp add: clmul_xor_left clmul_pow2 ac_simps xor_cancel_left)
    have step: "dv_loop y d (Suc i) (z, x) = dv_loop y d i (?z, ?x)"
      using True by simp
    have "i \<le> n"
      using Suc.prems(4) by simp
    have "clmul (fst (dv_loop y d i (?z, ?x))) y XOR snd (dv_loop y d i (?z, ?x))
        = clmul ?z y XOR ?x
      \<and> snd (dv_loop y d i (?z, ?x)) < 2 ^ d \<and> fst (dv_loop y d i (?z, ?x)) < 2 ^ n"
      using Suc.IH [OF x' z' zn \<open>i \<le> n\<close>] .
    then show ?thesis
      by (simp only: step eq)
  next
    case False
    from Suc.prems(1) have "x < 2 ^ Suc (i + d)"
      by simp
    with False have x': "x < 2 ^ (i + d)"
      by (rule not_bit_less_Suc)
    have z': "\<forall>j<i. \<not> bit z j"
      using Suc.prems(2) by simp
    have step: "dv_loop y d (Suc i) (z, x) = dv_loop y d i (z, x)"
      using False by simp
    have "i \<le> n"
      using Suc.prems(4) by simp
    show ?thesis
      using Suc.IH [OF x' z' Suc.prems(3) \<open>i \<le> n\<close>] by (simp only: step)
  qed
qed

lemma dv_correct:
  assumes "y \<noteq> 0"
  shows "clmul (fst (dv x y)) y XOR snd (dv x y) = x"
    and "snd (dv x y) < 2 ^ (bit_length_nat y - 1)"
    and "fst (dv x y) < 2 ^ (Suc (bit_length_nat x) - bit_length_nat y)"
proof -
  let ?d = "bit_length_nat y - 1" and ?i = "Suc (bit_length_nat x) - bit_length_nat y"
  have pos: "0 < bit_length_nat y"
    using assms by (rule bit_length_nat_pos)
  have "bit y ?d"
    using assms by (rule bit_length_nat_bit)
  moreover have "y < 2 ^ Suc ?d"
    using pos bit_length_nat_less [of y] by simp
  ultimately have y: "bit y ?d" "y < 2 ^ Suc ?d" .
  have "bit_length_nat x \<le> ?i + ?d"
    using pos by simp
  then have "(2::nat) ^ bit_length_nat x \<le> 2 ^ (?i + ?d)"
    by (rule power_increasing) simp
  with bit_length_nat_less [of x] have x: "x < 2 ^ (?i + ?d)"
    by (rule less_le_trans)
  have "clmul (fst (dv_loop y ?d ?i (0, x))) y XOR snd (dv_loop y ?d ?i (0, x)) = clmul 0 y XOR x
    \<and> snd (dv_loop y ?d ?i (0, x)) < 2 ^ ?d \<and> fst (dv_loop y ?d ?i (0, x)) < 2 ^ ?i"
    by (rule dv_loop_correct [OF y x]) simp_all
  then show "clmul (fst (dv x y)) y XOR snd (dv x y) = x"
    and "snd (dv x y) < 2 ^ (bit_length_nat y - 1)"
    and "fst (dv x y) < 2 ^ (Suc (bit_length_nat x) - bit_length_nat y)"
    by (simp_all add: dv_def)
qed

lemma dv_snd_less: "y \<noteq> 0 \<Longrightarrow> snd (dv x y) < y"
proof -
  assume y: "y \<noteq> 0"
  then have "2 ^ (bit_length_nat y - 1) \<le> y"
    by (intro bit_imp_ge_pow2 bit_length_nat_bit)
  with dv_correct(2) [OF y, of x] show ?thesis by simp
qed

lemma mm_dv_exact:
  assumes "x < 2 ^ 32" "y \<noteq> 0"
  shows "mm (fst (dv x y)) y = clmul (fst (dv x y)) y"
proof (cases "fst (dv x y) = 0")
  case True
  then show ?thesis
    using mm_loop_exact [of y "bit_length_nat y" 0 0] bit_length_nat_less [of y]
    by (simp add: mm_def)
next
  case False
  let ?q = "fst (dv x y)" and ?d = "bit_length_nat y - 1"
  have pos: "0 < bit_length_nat y"
    using assms(2) by (rule bit_length_nat_pos)
  have q: "?q < 2 ^ (Suc (bit_length_nat x) - bit_length_nat y)"
    using assms(2) by (rule dv_correct)
  with False have "Suc (bit_length_nat x) - bit_length_nat y \<noteq> 0"
    by (cases "Suc (bit_length_nat x) - bit_length_nat y = 0") auto
  then have e: "Suc (bit_length_nat x) - bit_length_nat y + ?d = bit_length_nat x"
    using pos by arith
  from q have "?q * 2 ^ ?d < 2 ^ (Suc (bit_length_nat x) - bit_length_nat y) * 2 ^ ?d"
    by simp
  also have "\<dots> = 2 ^ (Suc (bit_length_nat x) - bit_length_nat y + ?d)"
    by (simp only: power_add)
  also have "\<dots> = 2 ^ bit_length_nat x"
    by (simp only: e)
  also have "\<dots> \<le> 2 ^ 32"
    using assms(1) by (intro power_increasing bit_length_nat_le) simp_all
  finally have "?q * 2 ^ ?d < 2 ^ 32" .
  moreover have "y < 2 ^ Suc ?d"
    using pos bit_length_nat_less [of y] by simp
  ultimately have "mm_loop ?q y 0 = 0 XOR clmul y ?q"
    by (intro mm_loop_exact)
  then show ?thesis
    by (simp add: mm_def clmul_commute)
qed

lemma divide_multiply_exact:
  assumes "0 \<le> x" "x < 2 ^ 32" "0 < y"
  shows "\<exists>q r m. divide_and_remainder x y = Inr (q, r) \<and> multiply_mod q y = Some m \<and> m XOR r = x"
proof -
  define x' y' where "x' = nat x" and "y' = nat y"
  with assms have xy: "x = int x'" "y = int y'" "x' < 2 ^ 32" "y' \<noteq> 0"
    by (simp_all add: nat_less_iff)
  have "divide_and_remainder x y = Inr (int (fst (dv x' y')), int (snd (dv x' y')))"
    using divide_and_remainder_refines [OF xy(4), of x'] by (simp add: xy map_prod_def split_beta)
  moreover have "multiply_mod (int (fst (dv x' y'))) y = Some (int (mm (fst (dv x' y')) y'))"
    by (simp add: xy multiply_mod_refines)
  moreover have "int (mm (fst (dv x' y')) y') XOR int (snd (dv x' y')) = x"
    using dv_correct(1) [OF xy(4), of x'] mm_dv_exact [OF xy(3,4)]
    by (simp add: xy flip: of_nat_xor_eq)
  ultimately show ?thesis by blast
qed

definition unitG :: "gf2poly \<Rightarrow> bool" where
  "unitG v = (\<exists>u. eqG (u * v) 1)"

lemma gf2_dvd_one: "GF2 x dvd 1 \<Longrightarrow> x = Suc 0"
proof -
  assume "GF2 x dvd 1"
  then obtain m where "1 = GF2 x * m"
    unfolding dvd_def by blast
  then have eq: "clmul x (coeffs m) = Suc 0"
    by (simp add: times_gf2poly_def one_gf2poly_def)
  then have nz: "x \<noteq> 0" "coeffs m \<noteq> 0"
    by (auto intro: ccontr)
  from clmul_ge [OF nz(2), of x] have "x \<le> Suc 0"
    by (simp add: clmul_commute [of "coeffs m"] eq)
  with nz(1) show ?thesis by simp
qed

lemma reciprocal_mod_loop_step:
  assumes "y \<noteq> 0"
  shows "reciprocal_mod_loop (int x) (int y) (int a) (int b) =
    reciprocal_mod_loop (int y) (int (snd (dv x y))) (int b) (int (a XOR mm (fst (dv x y)) b))"
  by (subst reciprocal_mod_loop.simps)
    (simp add: assms divide_and_remainder_refines multiply_mod_refines of_nat_xor_eq)

lemma reciprocal_mod_loop_stop:
  "reciprocal_mod_loop (int (Suc 0)) (int 0) (int a) (int b) = Some (Inr (int a))"
  by (subst reciprocal_mod_loop.simps) simp

lemma bit_length_nat_ge2: "2 \<le> y \<Longrightarrow> 2 \<le> bit_length_nat y"
proof -
  assume "2 \<le> y"
  then have "y \<noteq> 0" "y div 2 \<noteq> 0" by auto
  then show ?thesis
    by (subst bit_length_nat.simps, subst bit_length_nat.simps) simp
qed

lemma bit_length_PN: "bit_length_nat PN = 33"
proof -
  have "bit_length_nat PN \<le> 33"
    using PN_bounds(2) by (rule bit_length_nat_le)
  moreover have "\<not> bit_length_nat PN \<le> 32"
  proof
    assume "bit_length_nat PN \<le> 32"
    then have "(2::nat) ^ bit_length_nat PN \<le> 2 ^ 32"
      by (rule power_increasing) simp
    with bit_length_nat_less [of PN] PN_bounds(1) show False
      by simp
  qed
  ultimately show ?thesis by simp
qed

lemma quotient_bound:
  assumes "x < 2 ^ 32 \<or> x = PN" "y \<noteq> 0"
  shows "fst (dv x y) < 2 ^ 32 \<or> snd (dv x y) = 0"
proof (cases "x = PN \<and> y = Suc 0")
  case True
  then show ?thesis
    using dv_snd_less [of y x] by simp
next
  case False
  have pos: "1 \<le> bit_length_nat y"
    using assms(2) bit_length_nat_pos [of y] by simp
  have "Suc (bit_length_nat x) - bit_length_nat y \<le> 32"
  proof (cases "x = PN")
    case True
    with False assms(2) have "2 \<le> y" by simp
    then have "2 \<le> bit_length_nat y"
      by (rule bit_length_nat_ge2)
    then show ?thesis
      by (simp add: True bit_length_PN)
  next
    case False
    with assms(1) have "bit_length_nat x \<le> 32"
      by (simp add: bit_length_nat_le)
    with pos show ?thesis by simp
  qed
  then have "(2::nat) ^ (Suc (bit_length_nat x) - bit_length_nat y) \<le> 2 ^ 32"
    by (rule power_increasing) simp
  with dv_correct(3) [OF assms(2), of x] have "fst (dv x y) < 2 ^ 32"
    by (rule less_le_trans)
  then show ?thesis ..
qed

lemma reciprocal_mod_loop_correct:
  assumes unit: "eqG (u * GF2 y0) 1"
  shows "a < 2 ^ 32 \<Longrightarrow> b < 2 ^ 32 \<or> y = 0 \<Longrightarrow> y < 2 ^ 32 \<Longrightarrow> x < 2 ^ 32 \<or> x = PN \<Longrightarrow>
    eqG (GF2 a * GF2 y0) (GF2 x) \<Longrightarrow> eqG (GF2 b * GF2 y0) (GF2 y) \<Longrightarrow>
    (\<forall>d. d dvd GF2 x \<and> d dvd GF2 y \<longrightarrow> d dvd Gp \<and> d dvd GF2 y0) \<Longrightarrow>
    \<exists>r<2 ^ 32. reciprocal_mod_loop (int x) (int y) (int a) (int b) = Some (Inr (int r))
      \<and> eqG (GF2 r * GF2 y0) 1"
proof (induction y arbitrary: x a b rule: less_induct)
  case (less y)
  show ?case
  proof (cases "y = 0")
    case True
    have "GF2 x dvd GF2 x \<and> GF2 x dvd GF2 y"
      by (simp add: True GF2_0)
    with less.prems(7) have d: "GF2 x dvd Gp" "GF2 x dvd GF2 y0"
      by blast+
    from unit have "Gp dvd u * GF2 y0 + 1"
      by (simp add: eqG_def)
    with d(1) have "GF2 x dvd u * GF2 y0 + 1"
      by (rule dvd_trans)
    moreover from d(2) have "GF2 x dvd u * GF2 y0"
      by (rule dvd_mult)
    ultimately have "GF2 x dvd (u * GF2 y0 + 1) + u * GF2 y0"
      by (rule dvd_add)
    moreover have "(u * GF2 y0 + 1) + u * GF2 y0 = 1"
      by (simp add: add.commute [of _ 1] add.assoc)
    ultimately have "GF2 x dvd 1" by simp
    then have x: "x = Suc 0" by (rule gf2_dvd_one)
    have "reciprocal_mod_loop (int x) (int y) (int a) (int b) = Some (Inr (int a))"
      unfolding x True by (rule reciprocal_mod_loop_stop)
    moreover have "eqG (GF2 a * GF2 y0) 1"
      using less.prems(5) by (simp add: x GF2_1)
    ultimately show ?thesis
      using less.prems(1) by blast
  next
    case False
    let ?q = "fst (dv x y)" and ?r = "snd (dv x y)"
    let ?m = "mm ?q b"
    have ry: "?r < y"
      using False by (rule dv_snd_less)
    have b: "b < 2 ^ 32"
      using less.prems(2) False by simp
    have split: "GF2 x = GF2 ?q * GF2 y + GF2 ?r"
      using dv_correct(1) [OF False, of x] by (simp flip: GF2_xor GF2_clmul)
    have 1: "b < 2 ^ 32" by (rule b)
    have 2: "a XOR ?m < 2 ^ 32 \<or> ?r = 0"
    proof (cases "?r = 0")
      case True
      then show ?thesis ..
    next
      case False
      with quotient_bound [OF less.prems(4) \<open>y \<noteq> 0\<close>] have "?q < 2 ^ 32" by simp
      then have "?m < 2 ^ 32" by (rule mm_less)
      with less.prems(1) have "a XOR ?m < 2 ^ 32"
        by (rule xor_less_pow2)
      then show ?thesis ..
    qed
    have 3: "?r < 2 ^ 32"
      using ry less.prems(3) by (rule less_trans)
    have 4: "y < 2 ^ 32 \<or> y = PN"
      using less.prems(3) ..
    have 5: "eqG (GF2 b * GF2 y0) (GF2 y)"
      by (rule less.prems(6))
    have "eqG (GF2 ?m * GF2 y0) (GF2 ?q * GF2 b * GF2 y0)"
      by (intro eqG_mult mm_eqG eqG_refl)
    moreover have "eqG (GF2 ?q * GF2 b * GF2 y0) (GF2 ?q * GF2 y)"
      using eqG_mult [OF eqG_refl [of "GF2 ?q"] less.prems(6)] by (simp add: mult.assoc)
    ultimately have "eqG (GF2 ?m * GF2 y0) (GF2 ?q * GF2 y)"
      by (rule eqG_trans)
    with less.prems(5) have "eqG (GF2 a * GF2 y0 + GF2 ?m * GF2 y0) (GF2 x + GF2 ?q * GF2 y)"
      by (rule eqG_add)
    moreover have "GF2 x + GF2 ?q * GF2 y = GF2 ?r"
      by (simp add: split add.commute [of _ "GF2 ?r"] add.assoc)
    ultimately have 6: "eqG (GF2 (a XOR ?m) * GF2 y0) (GF2 ?r)"
      by (simp add: GF2_xor distrib_right)
    have 7: "\<forall>d. d dvd GF2 y \<and> d dvd GF2 ?r \<longrightarrow> d dvd Gp \<and> d dvd GF2 y0"
    proof (intro allI impI)
      fix d
      assume d: "d dvd GF2 y \<and> d dvd GF2 ?r"
      then have "d dvd GF2 ?q * GF2 y" by simp
      with d have "d dvd GF2 x"
        unfolding split by (simp add: dvd_add)
      with d less.prems(7) show "d dvd Gp \<and> d dvd GF2 y0"
        by blast
    qed
    from less.IH [OF ry 1 2 3 4 5 6 7] show ?thesis
      by (simp only: reciprocal_mod_loop_step [OF False])
  qed
qed

lemma reciprocal_mod_correct:
  assumes "y0 \<noteq> 0" "y0 < 2 ^ 32" "unitG (GF2 y0)"
  shows "\<exists>r<2 ^ 32. reciprocal_mod (int y0) = Some (Inr (int r)) \<and> eqG (GF2 r * GF2 y0) 1"
proof -
  from assms(3) obtain u where u: "eqG (u * GF2 y0) 1"
    unfolding unitG_def by blast
  have "\<exists>r<2 ^ 32. reciprocal_mod_loop (int PN) (int y0) (int 0) (int 1) = Some (Inr (int r))
      \<and> eqG (GF2 r * GF2 y0) 1"
  proof (rule reciprocal_mod_loop_correct [OF u])
    show "eqG (GF2 0 * GF2 y0) (GF2 PN)"
      by (simp add: GF2_0 eqG_def Gp_def)
    show "eqG (GF2 1 * GF2 y0) (GF2 y0)"
      by (simp add: GF2_1)
  qed (use assms in \<open>simp_all add: Gp_def\<close>)
  then show ?thesis
    by (simp add: reciprocal_mod_def POLYNOMIAL_int)
qed

section \<open>digest: code against the specification\<close>

lemma crc_bit_step_uint: "crc_bit_step (uint (r :: 32 word)) = uint (iso_hdlc_bit r)"
proof -
  have "(uint r AND 1 \<noteq> 0) = bit r 0"
    using test_bit_int [of 0 "uint r"] by (simp add: bit_uint_iff)
  moreover have "drop_bit 1 (uint r) = uint (drop_bit 1 r)"
    by (rule bit_eqI) (simp add: bit_simps)
  moreover have "(0xEDB88320 :: int) = uint (0xEDB88320 :: 32 word)"
    by simp
  ultimately show ?thesis
    unfolding crc_bit_step_def iso_hdlc_bit_def by (simp only: uint_xor if_distrib [of uint])
qed

lemma crc_bit_steps_uint: "(crc_bit_step ^^ n) (uint (r :: 32 word)) = uint ((iso_hdlc_bit ^^ n) r)"
  by (induction n) (simp_all add: crc_bit_step_uint)

lemma crc_byte_step_uint: "crc_byte_step (uint (r :: 32 word)) b = uint (iso_hdlc_byte r b)"
proof -
  have "uint r XOR uint b = uint (r XOR ucast b)"
    by (simp add: uint_xor uint_up_ucast is_up)
  then show ?thesis
    by (simp only: crc_byte_step_def iso_hdlc_byte_def crc_bit_steps_uint)
qed

lemma crc_fold_uint:
  "foldl crc_byte_step (uint (r :: 32 word)) bs = uint (iso_hdlc_update r bs)"
  unfolding iso_hdlc_update_def
  by (induction bs arbitrary: r) (simp_all add: crc_byte_step_uint)

lemma calculate_crc32_bytes_eq: "calculate_crc32_bytes bs = uint (crc32_iso_hdlc bs)"
proof -
  have "(0xFFFFFFFF :: int) = uint (0xFFFFFFFF :: 32 word)"
    by simp
  then show ?thesis
    unfolding calculate_crc32_bytes_def crc32_iso_hdlc_def
    by (simp only: crc_fold_uint uint_xor)
qed

section \<open>chunks\<close>

lemma zlib_crc32_append:
  "zlib_crc32 ys (zlib_crc32 xs v) = zlib_crc32 (xs @ ys) v"
  by (simp add: zlib_crc32_def iso_hdlc_update_def xor.assoc)

lemma zlib_crc32_Nil: "zlib_crc32 [] (uint (w :: 32 word)) = uint w"
  by (simp add: zlib_crc32_def iso_hdlc_update_def xor.assoc)

lemma zlib_crc32_chunks:
  "foldl (\<lambda>crc chunk. zlib_crc32 chunk crc) (zlib_crc32 xs v) chunks = zlib_crc32 (xs @ concat chunks) v"
  by (induction chunks arbitrary: xs) (simp_all add: zlib_crc32_append)

lemma zlib_crc32_digest: "zlib_crc32 bs 0 = uint (crc32_iso_hdlc bs)"
  by (simp add: zlib_crc32_def crc32_iso_hdlc_def)

lemma zlib_crc32_is_uint: "zlib_crc32 bs v = uint (word_of_int (zlib_crc32 bs v) :: 32 word)"
  by (simp add: zlib_crc32_def)

lemma get_crc32_loop_eq:
  "get_crc32_loop rest (uint (w :: 32 word)) = reverse32 (zlib_crc32 rest (uint w))"
proof (induction rest "uint w" arbitrary: w rule: get_crc32_loop.induct)
  case (1 rest)
  show ?case
  proof (cases "rest = []")
    case True
    then show ?thesis
      by (subst get_crc32_loop.simps) (simp add: zlib_crc32_Nil)
  next
    case False
    let ?c = "zlib_crc32 (take (128 * 1024) rest) (uint w)"
    have ne: "length (take (128 * 1024) rest) \<noteq> 0"
      using False by simp
    have "get_crc32_loop (drop (128 * 1024) rest) (uint (word_of_int ?c :: 32 word))
      = reverse32 (zlib_crc32 (drop (128 * 1024) rest) (uint (word_of_int ?c :: 32 word)))"
      using ne zlib_crc32_is_uint [of "take (128 * 1024) rest" "uint w"]
      by (intro 1) simp_all
    then have "get_crc32_loop (drop (128 * 1024) rest) ?c
      = reverse32 (zlib_crc32 (drop (128 * 1024) rest) ?c)"
      by (simp only: zlib_crc32_is_uint [symmetric])
    then show ?thesis
      using False by (subst get_crc32_loop.simps) (simp add: zlib_crc32_append min_def)
  qed
qed

lemma get_crc32_eq: "get_crc32 raf = reverse32 (uint (crc32_iso_hdlc raf))"
  using get_crc32_loop_eq [of raf 0] by (simp add: get_crc32_def zlib_crc32_digest)

section \<open>reverse32\<close>

lemma bit_reverse32_loop:
  "bit (reverse32_loop n x y) k = (if k < n then bit x (n - 1 - k) else bit y (k - n))"
proof (induction n arbitrary: x y k)
  case 0
  show ?case by simp
next
  case (Suc n)
  have "bit (push_bit 1 y OR (x AND 1)) j = (if j = 0 then bit x 0 else bit y (j - 1))" for j
    unfolding bit_or_iff bit_and_iff bit_push_bit_iff bit_1_iff by (cases j) auto
  moreover have "bit (drop_bit 1 x) j = bit x (Suc j)" for j
    by (simp add: bit_drop_bit_eq)
  ultimately show ?case
    by (auto simp add: Suc Suc_diff_Suc less_Suc_eq Suc_diff_le)
qed

lemma bit_reverse32: "bit (reverse32 x) k = (k < 32 \<and> bit x (31 - k))"
  by (simp add: reverse32_def bit_reverse32_loop)

lemma reverse32_uint: "reverse32 (uint (w :: 32 word)) = uint (word_reverse w)"
  by (rule bit_eqI) (auto simp add: bit_reverse32 bit_uint_iff bit_word_reverse_iff)

lemma reverse32_reverse32_uint: "reverse32 (reverse32 (uint (w :: 32 word))) = uint w"
  by (simp add: reverse32_uint)

lemma reverse32_bounds: "0 \<le> reverse32 x" "reverse32 x < 2 ^ 32"
proof -
  have "reverse32 x = take_bit 32 (reverse32 x)"
    by (rule bit_eqI) (auto simp add: bit_reverse32 bit_take_bit_iff)
  then have "reverse32 x = take_bit 32 (reverse32 x)" .
  then show "0 \<le> reverse32 x" "reverse32 x < 2 ^ 32"
    by (metis take_bit_nonnegative, metis take_bit_int_less_exp)
qed

section \<open>Evaluation on numerals\<close>

lemma funpow8: "(f ^^ 8) x = f (f (f (f (f (f (f (f x)))))))"
  by (simp add: eval_nat_numeral)

lemma divide_loop_numeral:
  "divide_loop y d (numeral k) s =
    divide_loop y d (pred_numeral k)
      (if drop_bit (pred_numeral k + d) (snd s) AND 1 \<noteq> 0
       then (fst s OR push_bit (pred_numeral k) 1, snd s XOR push_bit (pred_numeral k) y)
       else s)"
  by (simp add: numeral_eq_Suc)

section \<open>Claims about the digest\<close>

lemma calculate_crc32_george: "calculate_crc32 ''george'' = 0xD6B555A0"
  by (simp add: calculate_crc32_def calculate_crc32_bytes_def utf8_encode_def
    utf8_encode_char_def crc_byte_step_def crc_bit_step_def funpow8)

text \<open>
  C3, as stated, fails on its example: the digest of \<open>"george"\<close> is \<open>0xD6B555A0\<close>, not
  \<open>0x4C7F5E35\<close>.
\<close>

theorem C3_george_counterexample: "calculate_crc32 ''george'' \<noteq> 0x4C7F5E35"
  by (simp add: calculate_crc32_george)

text \<open>
  C3, amended: for every byte sequence the loop of \<open>calculate_crc32\<close> returns the
  CRC-32/ISO-HDLC checksum as the specification words it (initial register \<open>0xFFFFFFFF\<close>,
  generator \<open>0xEDB88320\<close>, eight shift-and-xor steps per byte, final xor \<open>0xFFFFFFFF\<close>), so
  \<open>calculate_crc32\<close> of a string is that checksum of its UTF-8 bytes; the check value of the
  catalogue, \<open>0xCBF43926\<close> for \<open>"123456789"\<close>, is met, and \<open>calculate_crc32("george")\<close> is
  \<open>0xD6B555A0\<close>.
\<close>

theorem C3_calculate_crc32_canonical:
  "calculate_crc32_bytes bs = uint (crc32_iso_hdlc bs)
   \<and> calculate_crc32 data = uint (crc32_iso_hdlc (utf8_encode data))
   \<and> calculate_crc32 ''123456789'' = 0xCBF43926
   \<and> calculate_crc32 ''george'' = 0xD6B555A0"
proof -
  have "calculate_crc32 ''123456789'' = 0xCBF43926"
    by (simp add: calculate_crc32_def calculate_crc32_bytes_def utf8_encode_def
      utf8_encode_char_def crc_byte_step_def crc_bit_step_def funpow8)
  moreover have "calculate_crc32 data = uint (crc32_iso_hdlc (utf8_encode data))"
    by (simp add: calculate_crc32_def calculate_crc32_bytes_eq)
  ultimately show ?thesis
    using calculate_crc32_bytes_eq [of bs] calculate_crc32_george by blast
qed

text \<open>
  C4: folding \<open>zlib.crc32\<close> over any partition of a byte sequence into chunks, starting
  from 0, gives the one-buffer CRC-32/ISO-HDLC digest of the whole sequence; \<open>get_crc32\<close>,
  which reads chunks of 128 KiB, returns \<open>reverse32\<close> of that digest, and \<open>reverse32\<close> of
  its result is what \<open>calculate_crc32\<close> computes on the same bytes.
\<close>

theorem C4_chunked_digest:
  "foldl (\<lambda>crc chunk. zlib_crc32 chunk crc) 0 chunks = uint (crc32_iso_hdlc (concat chunks))
   \<and> get_crc32 raf = reverse32 (uint (crc32_iso_hdlc raf))
   \<and> reverse32 (get_crc32 raf) = calculate_crc32_bytes raf"
proof -
  have "zlib_crc32 [] 0 = 0"
    by (simp add: zlib_crc32_def iso_hdlc_update_def)
  then have "foldl (\<lambda>crc chunk. zlib_crc32 chunk crc) 0 chunks = zlib_crc32 ([] @ concat chunks) 0"
    using zlib_crc32_chunks [of "[]" 0 chunks] by simp
  then show ?thesis
    by (simp add: zlib_crc32_digest get_crc32_eq reverse32_reverse32_uint calculate_crc32_bytes_eq)
qed

section \<open>Claims about the arithmetic engine\<close>

text \<open>
  C5, as stated, fails where \<open>multiply_mod\<close> reduces: for \<open>x = 2 ^ 32\<close> and \<open>y = 2\<close> the
  quotient is \<open>2 ^ 31\<close>, the remainder 0, and \<open>multiply_mod(2 ^ 31, 2)\<close> is \<open>0x04C11DB7\<close>.
\<close>

theorem C5_counterexample:
  "divide_and_remainder 4294967296 2 = Inr (2147483648, 0)
   \<and> multiply_mod 2147483648 2 = Some 79764919
   \<and> 79764919 XOR 0 \<noteq> (4294967296 :: int)"
proof -
  have "divide_and_remainder 4294967296 2 = Inr (2147483648, 0)"
    by (simp add: divide_and_remainder_def get_degree_def bit_length_def bit_length_nat.simps
      divide_loop_numeral)
  moreover have "multiply_mod 2147483648 2 = Some 79764919"
    by (simp add: multiply_mod_def multiply_mod_loop.simps POLYNOMIAL_def)
  ultimately show ?thesis by simp
qed

text \<open>
  C5, amended: for every \<open>x\<close> of degree below 32 (\<open>0 \<le> x < 2 ^ 32\<close>) and every positive
  \<open>y\<close>, \<open>divide_and_remainder(x, y)\<close> returns \<open>(quotient, remainder)\<close>,
  \<open>multiply_mod(quotient, y)\<close> returns, and its result xor \<open>remainder\<close> is \<open>x\<close>.
\<close>

theorem C5_divide_multiply:
  "0 \<le> x \<Longrightarrow> x < 2 ^ 32 \<Longrightarrow> 0 < y \<Longrightarrow>
    \<exists>q r m. divide_and_remainder x y = Inr (q, r) \<and> multiply_mod q y = Some m \<and> m XOR r = x"
  by (rule divide_multiply_exact)

theorem C5_divide_multiply_witness:
  "(0::int) \<le> 100 \<and> (100::int) < 2 ^ 32 \<and> (0::int) < 7
   \<and> (\<exists>q r m. divide_and_remainder 100 7 = Inr (q, r) \<and> multiply_mod q 7 = Some m \<and> m XOR r = 100)"
  using C5_divide_multiply [of 100 7] by simp

end
